theory Spec2Isabelle
  imports Complex_Main
begin

section \<open>Chunk-based F-score for BIO tag sequences\<close>

text \<open>
  The development embeds the function \<open>calculateF1\<close> of the notebook
  \<open>12.ner/SequenceLabelingBiLSTM.ipynb\<close> together with its nested helper
  \<open>get_entities\<close>.

  Conventions of the embedding:
  \<^item> Python integers are \<open>int\<close>; the loop indices \<open>s_idx\<close> and \<open>w_idx\<close> are the
    counters of \<open>range(len(...))\<close>.
  \<^item> A Python variable that holds \<open>None\<close> or is not yet bound is an \<open>option\<close> whose
    value is \<open>None\<close>. Reading the unbound local \<open>cat\<close> raises, and so does a division
    by zero; both are values of \<open>py_error\<close>, and every function returns
    \<open>py_error + result\<close>.
  \<^item> Python floats are idealised as exact rationals: rounding is not modelled.
  \<^item> A tag is a \<open>string\<close>. The separator \<open>-\<close> is an ASCII character, so splitting
    the bytes of a tag at it yields the same pieces as splitting its code points.
\<close>

subsection \<open>Errors and data\<close>

datatype py_error = UnboundLocalError | ZeroDivisionError

text \<open>An entity is the tuple \<open>(s_idx, start, end, startCat)\<close> appended to \<open>ents\<close>.\<close>

type_synonym entity = "int \<times> int \<times> int \<times> string option"

text \<open>
  The local variables of \<open>get_entities\<close> that live across loop iterations. The local
  \<open>end\<close> is only written, never read after the tuple is built, and is left out.
\<close>

record scan_state =
  ents :: "entity list"
  start :: "int option"
  startCat :: "string option"
  cat :: "string option"

subsection \<open>\<open>str.split\<close> with a one-character separator\<close>

text \<open>
  \<open>tag.split("-")\<close>: the pieces between all occurrences of the separator, so a string
  with \<open>n\<close> separators has \<open>n + 1\<close> pieces, and the empty string has the one piece
  \<open>''''\<close>.
\<close>

fun str_split :: "char \<Rightarrow> string \<Rightarrow> string list" where
  "str_split sep [] = [[]]"
| "str_split sep (c # cs) =
     (if c = sep then [] # str_split sep cs
      else (case str_split sep cs of
              [] \<Rightarrow> [[c]]
            | p # ps \<Rightarrow> (c # p) # ps))"

subsection \<open>The body of the loop over the tokens of a sentence\<close>

text \<open>
  One iteration of \<open>for w_idx in range(len(sent))\<close> on \<open>tag = sent[w_idx]\<close>:
  parse the tag, close the open entity on a \<open>B\<close> or \<open>O\<close> marker, open a new one on
  a \<open>B\<close> marker.
\<close>

definition step :: "int \<Rightarrow> int \<Rightarrow> string \<Rightarrow> scan_state \<Rightarrow> py_error + scan_state" where
  "step s_idx w_idx tag st =
     (let parts = str_split CHR ''-'' tag;
          BIO = (if length parts = 2 then parts ! 0 else ''O'');
          st1 = (if length parts = 2 then st\<lparr>cat := Some (parts ! 1)\<rparr> else st);
          st2 = (if BIO = ''B'' \<or> BIO = ''O'' then
                   (case start st1 of
                      None \<Rightarrow> st1
                    | Some b \<Rightarrow>
                        st1\<lparr>ents := ents st1 @ [(s_idx, b, w_idx - 1, startCat st1)],
                            start := None, startCat := None\<rparr>)
                 else st1)
      in if BIO = ''B'' then
           (case cat st2 of
              None \<Rightarrow> Inl UnboundLocalError
            | Some c \<Rightarrow> Inr (st2\<lparr>start := Some w_idx, startCat := Some c\<rparr>))
         else Inr st2)"

fun token_loop :: "int \<Rightarrow> int \<Rightarrow> string list \<Rightarrow> scan_state \<Rightarrow> py_error + scan_state" where
  "token_loop s_idx w_idx [] st = Inr st"
| "token_loop s_idx w_idx (tag # rest) st =
     (case step s_idx w_idx tag st of
        Inl e \<Rightarrow> Inl e
      | Inr st' \<Rightarrow> token_loop s_idx (w_idx + 1) rest st')"

subsection \<open>The body of the loop over the sentences\<close>

text \<open>
  One iteration of \<open>for s_idx in range(len(sequences))\<close>: reset \<open>start\<close> and
  \<open>startCat\<close>, scan the tokens, and close the entity that is still open at
  \<open>len(sent) - 1\<close>.
\<close>

definition scan_sentence :: "int \<Rightarrow> string list \<Rightarrow> scan_state \<Rightarrow> py_error + scan_state" where
  "scan_sentence s_idx sent st =
     (case token_loop s_idx 0 sent (st\<lparr>start := None, startCat := None\<rparr>) of
        Inl e \<Rightarrow> Inl e
      | Inr st' \<Rightarrow>
          (case start st' of
             None \<Rightarrow> Inr st'
           | Some b \<Rightarrow>
               Inr (st'\<lparr>ents := ents st' @ [(s_idx, b, int (length sent) - 1, startCat st')]\<rparr>)))"

fun sentence_loop :: "int \<Rightarrow> string list list \<Rightarrow> scan_state \<Rightarrow> py_error + scan_state" where
  "sentence_loop s_idx [] st = Inr st"
| "sentence_loop s_idx (sent # rest) st =
     (case scan_sentence s_idx sent st of
        Inl e \<Rightarrow> Inl e
      | Inr st' \<Rightarrow> sentence_loop (s_idx + 1) rest st')"

text \<open>On entry \<open>ents\<close> is empty and no other local is bound.\<close>

definition init_state :: scan_state where
  "init_state = \<lparr>ents = [], start = None, startCat = None, cat = None\<rparr>"

definition get_entities :: "string list list \<Rightarrow> py_error + entity list" where
  "get_entities sequences =
     (case sentence_loop 0 sequences init_state of
        Inl e \<Rightarrow> Inl e
      | Inr st \<Rightarrow> Inr (ents st))"

subsection \<open>Precision, recall and F-score\<close>

definition py_div :: "rat \<Rightarrow> rat \<Rightarrow> py_error + rat" where
  "py_div a b = (if b = 0 then Inl ZeroDivisionError else Inr (a / b))"

definition calculateF1 ::
  "string list list \<Rightarrow> string list list \<Rightarrow> py_error + (rat \<times> rat \<times> rat)" where
  "calculateF1 gold_sequences predicted_sequences =
     (case get_entities gold_sequences of
        Inl e \<Rightarrow> Inl e
      | Inr gold_ents \<Rightarrow>
     (case get_entities predicted_sequences of
        Inl e \<Rightarrow> Inl e
      | Inr pred_ents \<Rightarrow>
     (let g_set = set gold_ents; p_set = set pred_ents in
      case (if card p_set > 0
            then py_div (of_nat (card (g_set \<inter> p_set))) (of_nat (card p_set))
            else Inr 0) of
        Inl e \<Rightarrow> Inl e
      | Inr precision \<Rightarrow>
     (case (if card g_set > 0
            then py_div (of_nat (card (g_set \<inter> p_set))) (of_nat (card g_set))
            else Inr 0) of
        Inl e \<Rightarrow> Inl e
      | Inr recall \<Rightarrow>
          (if precision + recall > 0 then
             (case py_div (2 * precision * recall) (precision + recall) of
                Inl e \<Rightarrow> Inl e
              | Inr F1 \<Rightarrow> Inr (precision, recall, F1))
           else Inr (precision, recall, 0))))))"

section \<open>Predicates used in the proofs\<close>

text \<open>
  An entity is well formed for a dataset when its sentence index names a sentence and
  its token indices, in order, lie inside that sentence.
\<close>

definition entity_ok :: "string list list \<Rightarrow> entity \<Rightarrow> bool" where
  "entity_ok seqs x =
     (case x of (s, b, e, c) \<Rightarrow>
        0 \<le> s \<and> s < int (length seqs) \<and> 0 \<le> b \<and> b \<le> e
        \<and> e \<le> int (length (seqs ! nat s)) - 1)"

text \<open>
  \<open>before x s b\<close>: the entity \<open>x\<close> lies in an earlier sentence than \<open>s\<close>, or in
  sentence \<open>s\<close> and ends before token \<open>b\<close>. \<open>ordered\<close> compares two entities this
  way, and \<open>limit\<close> is the least start index an entity that is emitted later in the
  current sentence can have.
\<close>

definition before :: "entity \<Rightarrow> int \<Rightarrow> int \<Rightarrow> bool" where
  "before x s b = (case x of (s', b', e', c') \<Rightarrow> s' < s \<or> (s' = s \<and> e' < b))"

definition ordered :: "entity \<Rightarrow> entity \<Rightarrow> bool" where
  "ordered x y = (case y of (s, b, e, c) \<Rightarrow> before x s b)"

definition limit :: "int \<Rightarrow> scan_state \<Rightarrow> int" where
  "limit w st = (case start st of None \<Rightarrow> w | Some b \<Rightarrow> b)"

text \<open>
  The invariants of the two loops: \<open>scan_inv\<close> holds before token \<open>w\<close> of sentence
  \<open>s\<close> is read, \<open>sent_inv\<close> before sentence \<open>s\<close> is read.
\<close>

definition scan_inv :: "string list list \<Rightarrow> int \<Rightarrow> int \<Rightarrow> scan_state \<Rightarrow> bool" where
  "scan_inv seqs s w st \<longleftrightarrow>
     0 \<le> s \<and> s < int (length seqs) \<and> w \<le> int (length (seqs ! nat s))
     \<and> (\<forall>x \<in> set (ents st). entity_ok seqs x \<and> before x s (limit w st))
     \<and> sorted_wrt ordered (ents st)
     \<and> 0 \<le> limit w st \<and> limit w st \<le> w \<and> (start st \<noteq> None \<longrightarrow> limit w st < w)"

definition sent_inv :: "string list list \<Rightarrow> int \<Rightarrow> scan_state \<Rightarrow> bool" where
  "sent_inv seqs s st \<longleftrightarrow>
     0 \<le> s \<and> s \<le> int (length seqs)
     \<and> (\<forall>x \<in> set (ents st). entity_ok seqs x \<and> fst x < s)
     \<and> sorted_wrt ordered (ents st)"

text \<open>
  Two states agree on everything that reaches the result: the local \<open>cat\<close> is read
  only in the iteration that has just assigned it.
\<close>

definition same_scan :: "scan_state \<Rightarrow> scan_state \<Rightarrow> bool" where
  "same_scan a b \<longleftrightarrow> ents a = ents b \<and> start a = start b \<and> startCat a = startCat b"

section \<open>No run raises\<close>

lemma str_split_nonempty: "str_split sep s \<noteq> []"
  by (induction s) (auto split: list.splits)

lemma str_split_no_sep: "sep \<notin> set s \<Longrightarrow> str_split sep s = [s]"
  by (induction s) auto

lemma step_total: "\<exists>st'. step s_idx w_idx tag st = Inr st'"
  by (auto simp: step_def Let_def split: option.splits)

lemma token_loop_total: "\<exists>st'. token_loop s_idx w_idx toks st = Inr st'"
proof (induction toks arbitrary: w_idx st)
  case Nil
  show ?case by simp
next
  case (Cons tag rest)
  obtain st1 where "step s_idx w_idx tag st = Inr st1"
    using step_total by blast
  then show ?case using Cons.IH [of "w_idx + 1" st1] by simp
qed

lemma scan_sentence_total: "\<exists>st'. scan_sentence s_idx sent st = Inr st'"
proof -
  obtain st1 where "token_loop s_idx 0 sent (st\<lparr>start := None, startCat := None\<rparr>) = Inr st1"
    using token_loop_total by blast
  then show ?thesis by (simp add: scan_sentence_def split: option.splits)
qed

lemma sentence_loop_total: "\<exists>st'. sentence_loop s_idx sents st = Inr st'"
proof (induction sents arbitrary: s_idx st)
  case Nil
  show ?case by simp
next
  case (Cons sent rest)
  obtain st1 where "scan_sentence s_idx sent st = Inr st1"
    using scan_sentence_total by blast
  then show ?case using Cons.IH [of "s_idx + 1" st1] by simp
qed

lemma get_entities_total: "\<exists>es. get_entities sequences = Inr es"
proof -
  obtain st where "sentence_loop 0 sequences init_state = Inr st"
    using sentence_loop_total by blast
  then show ?thesis by (simp add: get_entities_def)
qed

lemma token_loop_append:
  "token_loop s_idx w_idx (xs @ ys) st =
     (case token_loop s_idx w_idx xs st of
        Inl e \<Rightarrow> Inl e
      | Inr st' \<Rightarrow> token_loop s_idx (w_idx + int (length xs)) ys st')"
proof (induction xs arbitrary: w_idx st)
  case Nil
  show ?case by simp
next
  case (Cons x xs)
  show ?case
  proof (cases "step s_idx w_idx x st")
    case (Inl e)
    then show ?thesis by simp
  next
    case (Inr st1)
    then show ?thesis using Cons.IH [of "w_idx + 1" st1] by (simp add: ac_simps split: sum.split)
  qed
qed

lemma sentence_loop_append:
  "sentence_loop s_idx (xs @ ys) st =
     (case sentence_loop s_idx xs st of
        Inl e \<Rightarrow> Inl e
      | Inr st' \<Rightarrow> sentence_loop (s_idx + int (length xs)) ys st')"
proof (induction xs arbitrary: s_idx st)
  case Nil
  show ?case by simp
next
  case (Cons x xs)
  show ?case
  proof (cases "scan_sentence s_idx x st")
    case (Inl e)
    then show ?thesis by simp
  next
    case (Inr st1)
    then show ?thesis using Cons.IH [of "s_idx + 1" st1] by (simp add: ac_simps split: sum.split)
  qed
qed

section \<open>Scoring\<close>

subsection \<open>The example of the docstring\<close>

lemma gold_example:
  "get_entities [[''B-PER'', ''I-PER'', ''O'', ''O'', ''O'', ''O'', ''B-ORG''], [''O'', ''O'', ''O'']]
     = Inr [(0, 0, 1, Some ''PER''), (0, 6, 6, Some ''ORG'')]"
  by code_simp

lemma predicted_example:
  "get_entities [[''B-PER'', ''O'', ''O'', ''O'', ''B-PER'', ''O'', ''B-ORG''], [''O'', ''O'', ''O'']]
     = Inr [(0, 0, 0, Some ''PER''), (0, 4, 4, Some ''PER''), (0, 6, 6, Some ''ORG'')]"
  by code_simp

text \<open>
  Claim C1. On the two datasets of the docstring, \<open>get_entities\<close> yields the entities
  \<open>(0,0,1,PER)\<close>, \<open>(0,6,6,ORG)\<close> for gold and \<open>(0,0,0,PER)\<close>, \<open>(0,4,4,PER)\<close>,
  \<open>(0,6,6,ORG)\<close> for the prediction; the two sets share exactly one entity, and
  \<open>calculateF1\<close> returns precision \<open>1/3\<close>, recall \<open>1/2\<close> and F-score \<open>2/5\<close>.
\<close>

theorem literal_scenario:
  "\<exists>g p.
     get_entities [[''B-PER'', ''I-PER'', ''O'', ''O'', ''O'', ''O'', ''B-ORG''], [''O'', ''O'', ''O'']] = Inr g
   \<and> get_entities [[''B-PER'', ''O'', ''O'', ''O'', ''B-PER'', ''O'', ''B-ORG''], [''O'', ''O'', ''O'']] = Inr p
   \<and> set g = {(0, 0, 1, Some ''PER''), (0, 6, 6, Some ''ORG'')}
   \<and> set p = {(0, 0, 0, Some ''PER''), (0, 4, 4, Some ''PER''), (0, 6, 6, Some ''ORG'')}
   \<and> set g \<inter> set p = {(0, 6, 6, Some ''ORG'')}
   \<and> card (set g \<inter> set p) = 1
   \<and> calculateF1
        [[''B-PER'', ''I-PER'', ''O'', ''O'', ''O'', ''O'', ''B-ORG''], [''O'', ''O'', ''O'']]
        [[''B-PER'', ''O'', ''O'', ''O'', ''B-PER'', ''O'', ''B-ORG''], [''O'', ''O'', ''O'']]
      = Inr (1 / 3, 1 / 2, 2 / 5)"
proof -
  have f: "calculateF1
        [[''B-PER'', ''I-PER'', ''O'', ''O'', ''O'', ''O'', ''B-ORG''], [''O'', ''O'', ''O'']]
        [[''B-PER'', ''O'', ''O'', ''O'', ''B-PER'', ''O'', ''B-ORG''], [''O'', ''O'', ''O'']]
      = Inr (1 / 3, 1 / 2, 2 / 5)"
    by code_simp
  have i: "set [(0::int, 0::int, 1::int, Some ''PER''), (0, 6, 6, Some ''ORG'')]
           \<inter> set [(0, 0, 0, Some ''PER''), (0, 4, 4, Some ''PER''), (0, 6, 6, Some ''ORG'')]
         = {(0, 6, 6, Some ''ORG'')}"
    by auto
  show ?thesis
    apply (rule exI [of _ "[(0, 0, 1, Some ''PER''), (0, 6, 6, Some ''ORG'')]"])
    apply (rule exI [of _ "[(0, 0, 0, Some ''PER''), (0, 4, 4, Some ''PER''), (0, 6, 6, Some ''ORG'')]"])
    using gold_example predicted_example f i by simp
qed

subsection \<open>The three scores\<close>

lemma calculateF1_unfold:
  assumes g: "get_entities gold = Inr g" and p: "get_entities predicted = Inr p"
  shows "calculateF1 gold predicted =
     Inr (let P = (if card (set p) > 0
                   then rat_of_nat (card (set g \<inter> set p)) / rat_of_nat (card (set p)) else 0);
              R = (if card (set g) > 0
                   then rat_of_nat (card (set g \<inter> set p)) / rat_of_nat (card (set g)) else 0)
          in (P, R, if P + R > 0 then 2 * P * R / (P + R) else 0))"
  using g p by (simp add: calculateF1_def py_div_def Let_def)

text \<open>
  Claim C2. For all datasets \<open>calculateF1\<close> returns a triple, never an error:
  precision is the size of the intersection over the number of predicted entities, or
  \<open>0\<close> when there is none; recall is the same over the number of gold entities, or
  \<open>0\<close> when there is none; the F-score is \<open>2 * P * R / (P + R)\<close> when \<open>P + R > 0\<close>
  and \<open>0\<close> otherwise.
\<close>

theorem score_formula:
  "\<exists>g p P R.
     get_entities gold = Inr g \<and> get_entities predicted = Inr p
   \<and> P = (if card (set p) > 0
          then rat_of_nat (card (set g \<inter> set p)) / rat_of_nat (card (set p)) else 0)
   \<and> R = (if card (set g) > 0
          then rat_of_nat (card (set g \<inter> set p)) / rat_of_nat (card (set g)) else 0)
   \<and> calculateF1 gold predicted =
       Inr (P, R, if P + R > 0 then 2 * P * R / (P + R) else 0)"
proof -
  obtain g where g: "get_entities gold = Inr g"
    using get_entities_total by blast
  obtain p where p: "get_entities predicted = Inr p"
    using get_entities_total by blast
  show ?thesis
    using calculateF1_unfold [OF g p] g p by (simp add: Let_def)
qed

text \<open>
  Claim C5, as amended. \<open>calculateF1\<close> checks no alignment of its two arguments: for
  all datasets, whether or not their sentence and token counts agree, it returns a
  triple of scores and raises nothing.
\<close>

theorem score_total: "\<exists>m. calculateF1 gold predicted = Inr m"
proof -
  obtain g where g: "get_entities gold = Inr g"
    using get_entities_total by blast
  obtain p where p: "get_entities predicted = Inr p"
    using get_entities_total by blast
  show ?thesis
    using calculateF1_unfold [OF g p] by (simp add: Let_def)
qed

text \<open>
  Datasets with different sentence counts, and sentences with different token counts,
  are scored without complaint.
\<close>

theorem score_mismatch_counterexample:
  "length [[''B-PER'']] \<noteq> length ([] :: string list list)
   \<and> calculateF1 [[''B-PER'']] [] = Inr (0, 0, 0)
   \<and> length [''B-PER'', ''O''] \<noteq> length [''B-PER'']
   \<and> calculateF1 [[''B-PER'', ''O'']] [[''B-PER'']] = Inr (1, 1, 1)"
proof -
  have a: "calculateF1 [[''B-PER'']] [] = Inr (0, 0, 0)" by code_simp
  have b: "calculateF1 [[''B-PER'', ''O'']] [[''B-PER'']] = Inr (1, 1, 1)" by code_simp
  show ?thesis using a b by simp
qed

text \<open>
  Claim C6. A dataset with at least one entity, scored against itself, has precision,
  recall and F-score \<open>1\<close>.
\<close>

theorem score_identical:
  assumes "get_entities D = Inr es" and "set es \<noteq> {}"
  shows "calculateF1 D D = Inr (1, 1, 1)"
proof -
  have "es \<noteq> []" using assms(2) by simp
  then show ?thesis
    using calculateF1_unfold [OF assms(1) assms(1)] by (simp add: Let_def)
qed

theorem score_identical_witness:
  "get_entities [[''O'', ''B-PER'', ''I-PER'']] = Inr [(0, 1, 2, Some ''PER'')]
   \<and> set [(0::int, 1::int, 2::int, Some ''PER'')] \<noteq> {}
   \<and> calculateF1 [[''O'', ''B-PER'', ''I-PER'']] [[''O'', ''B-PER'', ''I-PER'']] = Inr (1, 1, 1)"
proof -
  have g: "get_entities [[''O'', ''B-PER'', ''I-PER'']] = Inr [(0, 1, 2, Some ''PER'')]"
    by code_simp
  have n: "set [(0::int, 1::int, 2::int, Some ''PER'')] \<noteq> {}" by simp
  show ?thesis using g n score_identical [OF g n] by simp
qed

section \<open>Bounds and order of the entities\<close>

lemma step_effect:
  assumes "step s_idx w_idx tag st = Inr st'"
  shows "(ents st' = ents st \<and> start st' = start st \<and> startCat st' = startCat st)
       \<or> (\<exists>b. start st = Some b
              \<and> ents st' = ents st @ [(s_idx, b, w_idx - 1, startCat st)]
              \<and> start st' \<in> {None, Some w_idx})
       \<or> (start st = None \<and> ents st' = ents st \<and> start st' = Some w_idx)"
  using assms by (auto simp: step_def Let_def split: option.splits if_splits)

lemma step_inv:
  assumes inv: "scan_inv seqs s w st"
    and w: "w < int (length (seqs ! nat s))"
    and st: "step s w tag st = Inr st'"
  shows "scan_inv seqs s (w + 1) st'"
  using step_effect [OF st]
proof (elim disjE exE conjE)
  assume "ents st' = ents st" "start st' = start st"
  then show ?thesis
    using inv w by (cases "start st") (auto simp: scan_inv_def limit_def before_def)
next
  fix b
  assume b: "start st = Some b"
    and e: "ents st' = ents st @ [(s, b, w - 1, startCat st)]"
    and n: "start st' \<in> {None, Some w}"
  have ok: "entity_ok seqs (s, b, w - 1, startCat st)"
    using inv w b by (simp add: scan_inv_def limit_def entity_ok_def)
  have old: "\<forall>x \<in> set (ents st). entity_ok seqs x \<and> before x s b"
    using inv b by (simp add: scan_inv_def limit_def)
  have srt: "sorted_wrt ordered (ents st')"
    using inv old e by (simp add: scan_inv_def sorted_wrt_append ordered_def)
  have bw: "0 \<le> b \<and> b < w" using inv b by (simp add: scan_inv_def limit_def)
  have lim: "limit (w + 1) st' = w + 1 \<or> limit (w + 1) st' = w"
    using n by (auto simp: limit_def)
  have bef: "\<forall>x \<in> set (ents st'). before x s w"
    using old e bw by (auto simp: before_def)
  have bef1: "\<forall>x \<in> set (ents st'). before x s (w + 1)"
    using bef by (auto simp: before_def)
  have oks: "\<forall>x \<in> set (ents st'). entity_ok seqs x"
    using old ok e by auto
  show ?thesis
    using n inv w srt bw oks bef bef1
    by (auto simp: scan_inv_def limit_def)
next
  assume "start st = None" "ents st' = ents st" "start st' = Some w"
  then show ?thesis
    using inv w by (auto simp: scan_inv_def limit_def before_def)
qed

lemma token_loop_inv:
  "scan_inv seqs s w st \<Longrightarrow> w + int (length toks) \<le> int (length (seqs ! nat s))
   \<Longrightarrow> token_loop s w toks st = Inr st'
   \<Longrightarrow> scan_inv seqs s (w + int (length toks)) st'"
proof (induction toks arbitrary: w st)
  case Nil
  then show ?case by simp
next
  case (Cons tag rest)
  obtain st1 where st1: "step s w tag st = Inr st1"
    using step_total by blast
  have "scan_inv seqs s (w + 1) st1"
    using step_inv [OF Cons.prems(1) _ st1] Cons.prems(2) by simp
  moreover have "w + 1 + int (length rest) \<le> int (length (seqs ! nat s))"
    using Cons.prems(2) by simp
  moreover have "token_loop s (w + 1) rest st1 = Inr st'"
    using Cons.prems(3) st1 by simp
  ultimately have "scan_inv seqs s (w + 1 + int (length rest)) st'"
    by (rule Cons.IH)
  then show ?case by (simp add: ac_simps)
qed

lemma scan_sentence_inv:
  assumes inv: "sent_inv seqs s st"
    and s: "s < int (length seqs)"
    and run: "scan_sentence s (seqs ! nat s) st = Inr st'"
  shows "sent_inv seqs (s + 1) st'"
proof -
  let ?sent = "seqs ! nat s"
  let ?r = "st\<lparr>start := None, startCat := None\<rparr>"
  obtain st1 where st1: "token_loop s 0 ?sent ?r = Inr st1"
    using token_loop_total by blast
  have "scan_inv seqs s 0 ?r"
    using inv s by (auto simp: sent_inv_def scan_inv_def limit_def before_def)
  then have "scan_inv seqs s (0 + int (length ?sent)) st1"
    using token_loop_inv [OF _ _ st1] by simp
  then have i1: "scan_inv seqs s (int (length ?sent)) st1" by simp
  have le: "\<forall>x \<in> set (ents st1). fst x < s + 1"
    using i1 by (auto simp: scan_inv_def before_def)
  show ?thesis
  proof (cases "start st1")
    case None
    then have "st' = st1" using run st1 by (simp add: scan_sentence_def)
    then show ?thesis using i1 le s by (auto simp: scan_inv_def sent_inv_def)
  next
    case (Some b)
    then have e: "ents st' = ents st1 @ [(s, b, int (length ?sent) - 1, startCat st1)]"
      using run st1 by (auto simp: scan_sentence_def)
    have ok: "entity_ok seqs (s, b, int (length ?sent) - 1, startCat st1)"
      using i1 Some by (simp add: scan_inv_def limit_def entity_ok_def)
    have old: "\<forall>x \<in> set (ents st1). entity_ok seqs x \<and> before x s b"
      using i1 Some by (simp add: scan_inv_def limit_def)
    have srt: "sorted_wrt ordered (ents st')"
      using i1 old e by (simp add: scan_inv_def sorted_wrt_append ordered_def)
    show ?thesis
      using e ok old le srt i1 s by (auto simp: sent_inv_def scan_inv_def)
  qed
qed

lemma sentence_loop_inv:
  "sent_inv (pre @ rest) (int (length pre)) st
   \<Longrightarrow> sentence_loop (int (length pre)) rest st = Inr st'
   \<Longrightarrow> sent_inv (pre @ rest) (int (length (pre @ rest))) st'"
proof (induction rest arbitrary: pre st)
  case Nil
  then show ?case by simp
next
  case (Cons sent rest)
  obtain st1 where st1: "scan_sentence (int (length pre)) sent st = Inr st1"
    using scan_sentence_total by blast
  have nth: "(pre @ sent # rest) ! nat (int (length pre)) = sent" by simp
  have "sent_inv (pre @ sent # rest) (int (length pre) + 1) st1"
    using scan_sentence_inv [OF Cons.prems(1)] st1 nth by simp
  then have a: "sent_inv ((pre @ [sent]) @ rest) (int (length (pre @ [sent]))) st1"
    by (simp add: ac_simps)
  have b: "sentence_loop (int (length (pre @ [sent]))) rest st1 = Inr st'"
    using Cons.prems(2) st1 by (simp add: ac_simps)
  show ?case using Cons.IH [OF a b] by simp
qed

lemma get_entities_inv:
  assumes "get_entities seqs = Inr es"
  shows "(\<forall>x \<in> set es. entity_ok seqs x) \<and> sorted_wrt ordered es"
proof -
  obtain st where st: "sentence_loop 0 seqs init_state = Inr st"
    using sentence_loop_total by blast
  have es: "es = ents st" using assms st by (simp add: get_entities_def)
  have a: "sent_inv ([] @ seqs) (int (length ([] :: string list list))) init_state"
    by (simp add: sent_inv_def init_state_def)
  have b: "sentence_loop (int (length ([] :: string list list))) seqs init_state = Inr st"
    using st by simp
  show ?thesis using sentence_loop_inv [OF a b] es by (simp add: sent_inv_def)
qed

lemma ordered_distinct:
  "sorted_wrt ordered es \<Longrightarrow> \<forall>x \<in> set es. entity_ok seqs x \<Longrightarrow> distinct es"
proof (induction es)
  case Nil
  show ?case by simp
next
  case (Cons x xs)
  have "x \<notin> set xs"
  proof
    assume "x \<in> set xs"
    then have "ordered x x" using Cons.prems(1) by simp
    moreover have "entity_ok seqs x" using Cons.prems(2) by simp
    ultimately show False
      by (auto simp: ordered_def before_def entity_ok_def)
  qed
  then show ?case using Cons by simp
qed

lemma example_two_sentences:
  "get_entities [[''B-PER'', ''I-PER'', ''O'', ''B-ORG''], [''O''], [''B-LOC'', ''B-LOC'']]
     = Inr [(0, 0, 1, Some ''PER''), (0, 3, 3, Some ''ORG''),
            (2, 0, 0, Some ''LOC''), (2, 1, 1, Some ''LOC'')]"
  by code_simp

text \<open>
  Claim C9. Extraction returns, and every entity \<open>(s, b, e, c)\<close> it returns has a valid
  sentence index \<open>s\<close>, \<open>b \<le> e\<close>, and both \<open>b\<close> and \<open>e\<close> between \<open>0\<close> and the length
  of sentence \<open>s\<close> minus one; so every token it covers is a token of sentence \<open>s\<close>.
\<close>

theorem entity_bounds:
  "\<exists>es. get_entities seqs = Inr es
     \<and> (\<forall>(s, b, e, c) \<in> set es.
           0 \<le> s \<and> s < int (length seqs)
         \<and> 0 \<le> b \<and> b \<le> e \<and> e \<le> int (length (seqs ! nat s)) - 1
         \<and> {b..e} \<subseteq> {0..int (length (seqs ! nat s)) - 1})"
proof -
  obtain es where es: "get_entities seqs = Inr es"
    using get_entities_total by blast
  have "\<forall>x \<in> set es. entity_ok seqs x"
    using get_entities_inv [OF es] by simp
  then show ?thesis using es by (auto simp: entity_ok_def)
qed

theorem entity_bounds_witness:
  "get_entities [[''B-PER'', ''I-PER'', ''O'', ''B-ORG''], [''O''], [''B-LOC'', ''B-LOC'']]
     = Inr [(0, 0, 1, Some ''PER''), (0, 3, 3, Some ''ORG''),
            (2, 0, 0, Some ''LOC''), (2, 1, 1, Some ''LOC'')]
   \<and> (2::int) < int (length [[''B-PER'', ''I-PER'', ''O'', ''B-ORG''], [''O''], [''B-LOC'', ''B-LOC'']])
   \<and> (1::int) \<le> int (length ([[''B-PER'', ''I-PER'', ''O'', ''B-ORG''], [''O''], [''B-LOC'', ''B-LOC'']] ! nat 2)) - 1"
  using entity_bounds [of "[[''B-PER'', ''I-PER'', ''O'', ''B-ORG''], [''O''], [''B-LOC'', ''B-LOC'']]"]
    example_two_sentences
  by simp

text \<open>
  Claim C10. The list of entities returned has no duplicates, so its set has as many
  elements as the list; sentence indices never decrease along the list, and of two
  entities of the same sentence the later one starts after the earlier one has ended:
  start indices increase strictly and the spans are disjoint.
\<close>

theorem entities_ordered:
  "\<exists>es. get_entities seqs = Inr es
     \<and> distinct es \<and> card (set es) = length es
     \<and> sorted_wrt (\<lambda>(s, b, e, c) (s', b', e', c').
          s \<le> s' \<and> (s = s' \<longrightarrow> b < b' \<and> e < b' \<and> {b..e} \<inter> {b'..e'} = {})) es"
proof -
  obtain es where es: "get_entities seqs = Inr es"
    using get_entities_total by blast
  have ok: "\<forall>x \<in> set es. entity_ok seqs x" and srt: "sorted_wrt ordered es"
    using get_entities_inv [OF es] by simp_all
  have d: "distinct es" using ordered_distinct [OF srt ok] .
  have "sorted_wrt (\<lambda>(s, b, e, c) (s', b', e', c').
          s \<le> s' \<and> (s = s' \<longrightarrow> b < b' \<and> e < b' \<and> {b..e} \<inter> {b'..e'} = {})) es"
  proof (rule sorted_wrt_mono_rel [OF _ srt])
    fix x y
    assume "x \<in> set es" "y \<in> set es" "ordered x y"
    moreover have "entity_ok seqs x" using ok \<open>x \<in> set es\<close> by simp
    ultimately show "(case x of (s, b, e, c) \<Rightarrow> \<lambda>(s', b', e', c').
          s \<le> s' \<and> (s = s' \<longrightarrow> b < b' \<and> e < b' \<and> {b..e} \<inter> {b'..e'} = {})) y"
      by (auto simp: ordered_def before_def entity_ok_def)
  qed
  then show ?thesis using es d by (simp add: distinct_card)
qed

theorem entities_ordered_witness:
  "get_entities [[''B-PER'', ''I-PER'', ''O'', ''B-ORG''], [''O''], [''B-LOC'', ''B-LOC'']]
     = Inr [(0, 0, 1, Some ''PER''), (0, 3, 3, Some ''ORG''),
            (2, 0, 0, Some ''LOC''), (2, 1, 1, Some ''LOC'')]
   \<and> distinct [(0::int, 0::int, 1::int, Some ''PER''), (0, 3, 3, Some ''ORG''),
            (2, 0, 0, Some ''LOC''), (2, 1, 1, Some ''LOC'')]
   \<and> card (set [(0::int, 0::int, 1::int, Some ''PER''), (0, 3, 3, Some ''ORG''),
            (2, 0, 0, Some ''LOC''), (2, 1, 1, Some ''LOC'')]) = 4"
  using entities_ordered [of "[[''B-PER'', ''I-PER'', ''O'', ''B-ORG''], [''O''], [''B-LOC'', ''B-LOC'']]"]
    example_two_sentences
  by simp

section \<open>The last entity of a sentence\<close>

lemma step_ents_mono: "step s w tag st = Inr st' \<Longrightarrow> set (ents st) \<subseteq> set (ents st')"
  using step_effect [of s w tag st st'] by auto

lemma token_loop_ents_mono:
  "token_loop s w toks st = Inr st' \<Longrightarrow> set (ents st) \<subseteq> set (ents st')"
proof (induction toks arbitrary: w st)
  case Nil
  then show ?case by simp
next
  case (Cons tag rest)
  obtain st1 where st1: "step s w tag st = Inr st1" using step_total by blast
  have "token_loop s (w + 1) rest st1 = Inr st'" using Cons.prems st1 by simp
  then have "set (ents st1) \<subseteq> set (ents st')" by (rule Cons.IH)
  then show ?case using step_ents_mono [OF st1] by blast
qed

lemma scan_sentence_ents_mono:
  assumes "scan_sentence s sent st = Inr st'"
  shows "set (ents st) \<subseteq> set (ents st')"
proof -
  obtain st1 where st1: "token_loop s 0 sent (st\<lparr>start := None, startCat := None\<rparr>) = Inr st1"
    using token_loop_total by blast
  have "set (ents st) \<subseteq> set (ents st1)" using token_loop_ents_mono [OF st1] by simp
  moreover have "set (ents st1) \<subseteq> set (ents st')"
    using assms st1 by (auto simp: scan_sentence_def split: option.splits)
  ultimately show ?thesis by blast
qed

lemma sentence_loop_ents_mono:
  "sentence_loop s sents st = Inr st' \<Longrightarrow> set (ents st) \<subseteq> set (ents st')"
proof (induction sents arbitrary: s st)
  case Nil
  then show ?case by simp
next
  case (Cons sent rest)
  obtain st1 where st1: "scan_sentence s sent st = Inr st1" using scan_sentence_total by blast
  have "sentence_loop (s + 1) rest st1 = Inr st'" using Cons.prems st1 by simp
  then have "set (ents st1) \<subseteq> set (ents st')" by (rule Cons.IH)
  then show ?case using scan_sentence_ents_mono [OF st1] by blast
qed

text \<open>
  Claim C7. Let \<open>st\<close> be the state in which sentence \<open>sent\<close> is reached, after the
  sentences \<open>pre\<close>. If the loop over the tokens of \<open>sent\<close> ends with an entity open
  (\<open>start\<close> is some \<open>b\<close>), then the result of the extraction contains that entity, for
  sentence \<open>length pre\<close>, from \<open>b\<close> to the last token \<open>length sent - 1\<close>, with the
  category it was opened with.
\<close>

theorem open_entity_closed_at_end:
  assumes pre: "sentence_loop 0 pre init_state = Inr st"
    and scan: "token_loop (int (length pre)) 0 sent (st\<lparr>start := None, startCat := None\<rparr>) = Inr st'"
    and opn: "start st' = Some b"
  shows "\<exists>es. get_entities (pre @ sent # post) = Inr es
            \<and> (int (length pre), b, int (length sent) - 1, startCat st') \<in> set es"
proof -
  let ?s = "int (length pre)"
  let ?x = "(?s, b, int (length sent) - 1, startCat st')"
  have st2: "scan_sentence ?s sent st = Inr (st'\<lparr>ents := ents st' @ [?x]\<rparr>)"
    using scan opn by (simp add: scan_sentence_def)
  obtain st3 where st3: "sentence_loop (?s + 1) post (st'\<lparr>ents := ents st' @ [?x]\<rparr>) = Inr st3"
    using sentence_loop_total by blast
  have "?x \<in> set (ents st3)" using sentence_loop_ents_mono [OF st3] by simp
  moreover have "get_entities (pre @ sent # post) = Inr (ents st3)"
    using pre st2 st3 by (simp add: get_entities_def sentence_loop_append)
  ultimately show ?thesis by blast
qed

theorem open_entity_closed_at_end_witness:
  "sentence_loop 0 [[''O'']] init_state = Inr init_state
   \<and> token_loop (int (length [[''O'']])) 0 [''O'', ''B-PER'', ''I-PER'']
        (init_state\<lparr>start := None, startCat := None\<rparr>)
      = Inr \<lparr>ents = [], start = Some 1, startCat = Some ''PER'', cat = Some ''PER''\<rparr>
   \<and> (\<exists>es. get_entities ([[''O'']] @ [''O'', ''B-PER'', ''I-PER''] # [[''B-ORG'']]) = Inr es
          \<and> (1, 1, 2, Some ''PER'') \<in> set es)"
proof -
  have a: "sentence_loop 0 [[''O'']] init_state = Inr init_state"
    by (simp add: scan_sentence_def step_def init_state_def)
  have b: "token_loop (int (length [[''O'']])) 0 [''O'', ''B-PER'', ''I-PER'']
        (init_state\<lparr>start := None, startCat := None\<rparr>)
      = Inr \<lparr>ents = [], start = Some 1, startCat = Some ''PER'', cat = Some ''PER''\<rparr>"
    by (simp add: step_def init_state_def Let_def)
  have c: "start \<lparr>ents = [], start = Some 1, startCat = Some ''PER'', cat = Some ''PER''\<rparr> = Some 1"
    by simp
  show ?thesis
    using a b open_entity_closed_at_end [OF a b c, of "[[''B-ORG'']]"] by simp
qed

section \<open>How tags are read\<close>

lemma str_split_O: "str_split CHR ''-'' ''O'' = [''O'']"
  by simp

lemma step_same:
  "same_scan a b \<Longrightarrow> step s w tag a = Inr a' \<Longrightarrow> step s w tag b = Inr b'
   \<Longrightarrow> same_scan a' b'"
  by (auto simp: step_def Let_def same_scan_def split: option.splits if_splits)

lemma step_like_O:
  "length (str_split CHR ''-'' tag) \<noteq> 2 \<or> str_split CHR ''-'' tag ! 0 = ''O''
   \<Longrightarrow> same_scan a b \<Longrightarrow> step s w tag a = Inr a' \<Longrightarrow> step s w ''O'' b = Inr b'
   \<Longrightarrow> same_scan a' b'"
  by (auto simp: step_def Let_def same_scan_def split: option.splits if_splits)

lemma step_keeps:
  "length (str_split CHR ''-'' tag) = 2 \<Longrightarrow> str_split CHR ''-'' tag ! 0 \<noteq> ''B''
   \<Longrightarrow> str_split CHR ''-'' tag ! 0 \<noteq> ''O''
   \<Longrightarrow> step s w tag st = Inr (st\<lparr>cat := Some (str_split CHR ''-'' tag ! 1)\<rparr>)"
  by (simp add: step_def Let_def)

lemma token_loop_same:
  "same_scan a b \<Longrightarrow> token_loop s w toks a = Inr a' \<Longrightarrow> token_loop s w toks b = Inr b'
   \<Longrightarrow> same_scan a' b'"
proof (induction toks arbitrary: w a b)
  case Nil
  then show ?case by simp
next
  case (Cons tag rest)
  obtain a1 where a1: "step s w tag a = Inr a1" using step_total by blast
  obtain b1 where b1: "step s w tag b = Inr b1" using step_total by blast
  have "same_scan a1 b1" using step_same [OF Cons.prems(1) a1 b1] .
  moreover have "token_loop s (w + 1) rest a1 = Inr a'" using Cons.prems(2) a1 by simp
  moreover have "token_loop s (w + 1) rest b1 = Inr b'" using Cons.prems(3) b1 by simp
  ultimately show ?case by (rule Cons.IH)
qed

lemma token_loop_like_O:
  assumes tag: "length (str_split CHR ''-'' tag) \<noteq> 2 \<or> str_split CHR ''-'' tag ! 0 = ''O''"
    and ab: "same_scan a b"
    and a': "token_loop s w (xs @ tag # ys) a = Inr a'"
    and b': "token_loop s w (xs @ ''O'' # ys) b = Inr b'"
  shows "same_scan a' b'"
proof -
  obtain a1 where a1: "token_loop s w xs a = Inr a1" using token_loop_total by blast
  obtain b1 where b1: "token_loop s w xs b = Inr b1" using token_loop_total by blast
  obtain a2 where a2: "step s (w + int (length xs)) tag a1 = Inr a2"
    using step_total by blast
  obtain b2 where b2: "step s (w + int (length xs)) ''O'' b1 = Inr b2"
    using step_total by blast
  have s1: "same_scan a1 b1" using token_loop_same [OF ab a1 b1] .
  have s2: "same_scan a2 b2" using step_like_O [OF tag s1 a2 b2] .
  have ra: "token_loop s (w + int (length xs) + 1) ys a2 = Inr a'"
    using a' a1 a2 by (simp add: token_loop_append)
  have rb: "token_loop s (w + int (length xs) + 1) ys b2 = Inr b'"
    using b' b1 b2 by (simp add: token_loop_append)
  show ?thesis using token_loop_same [OF s2 ra rb] .
qed

lemma scan_sentence_rel:
  assumes len: "length sent = length sent'"
    and loops: "\<And>r r' t t'. same_scan r r' \<Longrightarrow> token_loop s 0 sent r = Inr t
                  \<Longrightarrow> token_loop s 0 sent' r' = Inr t' \<Longrightarrow> same_scan t t'"
    and ab: "same_scan a b"
    and a': "scan_sentence s sent a = Inr a'"
    and b': "scan_sentence s sent' b = Inr b'"
  shows "same_scan a' b'"
proof -
  let ?ra = "a\<lparr>start := None, startCat := None\<rparr>"
  let ?rb = "b\<lparr>start := None, startCat := None\<rparr>"
  obtain a1 where a1: "token_loop s 0 sent ?ra = Inr a1" using token_loop_total by blast
  obtain b1 where b1: "token_loop s 0 sent' ?rb = Inr b1" using token_loop_total by blast
  have "same_scan ?ra ?rb" using ab by (simp add: same_scan_def)
  then have s1: "same_scan a1 b1" using a1 b1 by (rule loops)
  show ?thesis
    using a' b' a1 b1 s1 len
    by (auto simp: scan_sentence_def same_scan_def split: option.splits)
qed

lemma scan_sentence_same:
  "same_scan a b \<Longrightarrow> scan_sentence s sent a = Inr a' \<Longrightarrow> scan_sentence s sent b = Inr b'
   \<Longrightarrow> same_scan a' b'"
  by (rule scan_sentence_rel [of sent sent s a b a' b']) (auto intro: token_loop_same)

lemma sentence_loop_same:
  "same_scan a b \<Longrightarrow> sentence_loop s sents a = Inr a' \<Longrightarrow> sentence_loop s sents b = Inr b'
   \<Longrightarrow> same_scan a' b'"
proof (induction sents arbitrary: s a b)
  case Nil
  then show ?case by simp
next
  case (Cons sent rest)
  obtain a1 where a1: "scan_sentence s sent a = Inr a1" using scan_sentence_total by blast
  obtain b1 where b1: "scan_sentence s sent b = Inr b1" using scan_sentence_total by blast
  have "same_scan a1 b1" using scan_sentence_same [OF Cons.prems(1) a1 b1] .
  moreover have "sentence_loop (s + 1) rest a1 = Inr a'" using Cons.prems(2) a1 by simp
  moreover have "sentence_loop (s + 1) rest b1 = Inr b'" using Cons.prems(3) b1 by simp
  ultimately show ?case by (rule Cons.IH)
qed

lemma get_entities_like_O:
  assumes tag: "length (str_split CHR ''-'' tag) \<noteq> 2 \<or> str_split CHR ''-'' tag ! 0 = ''O''"
  shows "get_entities (pre @ (xs @ tag # ys) # post) = get_entities (pre @ (xs @ ''O'' # ys) # post)"
proof -
  let ?s = "int (length pre)"
  obtain st where st: "sentence_loop 0 pre init_state = Inr st"
    using sentence_loop_total by blast
  obtain a1 where a1: "scan_sentence ?s (xs @ tag # ys) st = Inr a1"
    using scan_sentence_total by blast
  obtain b1 where b1: "scan_sentence ?s (xs @ ''O'' # ys) st = Inr b1"
    using scan_sentence_total by blast
  obtain a2 where a2: "sentence_loop (?s + 1) post a1 = Inr a2"
    using sentence_loop_total by blast
  obtain b2 where b2: "sentence_loop (?s + 1) post b1 = Inr b2"
    using sentence_loop_total by blast
  have "same_scan st st" by (simp add: same_scan_def)
  then have "same_scan a1 b1"
    using a1 b1
    by (rule scan_sentence_rel [rotated 2]) (auto intro: token_loop_like_O [OF tag])
  then have "same_scan a2 b2" using a2 b2 by (rule sentence_loop_same)
  then have "ents a2 = ents b2" by (simp add: same_scan_def)
  moreover have "get_entities (pre @ (xs @ tag # ys) # post) = Inr (ents a2)"
    using st a1 a2 by (simp add: get_entities_def sentence_loop_append)
  moreover have "get_entities (pre @ (xs @ ''O'' # ys) # post) = Inr (ents b2)"
    using st b1 b2 by (simp add: get_entities_def sentence_loop_append)
  ultimately show ?thesis by simp
qed

text \<open>
  Claim C8. A tag that parses to the marker \<open>I\<close> closes nothing and opens nothing:
  the step leaves \<open>ents\<close>, \<open>start\<close> and \<open>startCat\<close> as they are, whatever category the
  tag names. So alone it yields no entity, and after \<open>B-Y\<close> the entity of category
  \<open>Y\<close> runs over it.
\<close>

theorem inside_marker_keeps_state:
  assumes "length (str_split CHR ''-'' tag) = 2" and "str_split CHR ''-'' tag ! 0 = ''I''"
  shows "(\<exists>st'. step s_idx w_idx tag st = Inr st'
            \<and> ents st' = ents st \<and> start st' = start st \<and> startCat st' = startCat st)
       \<and> get_entities [[tag]] = Inr []
       \<and> (CHR ''-'' \<notin> set Y \<longrightarrow> get_entities [[''B-'' @ Y, tag]] = Inr [(0, 0, 1, Some Y)])"
proof -
  have k: "\<And>s w st. step s w tag st = Inr (st\<lparr>cat := Some (str_split CHR ''-'' tag ! 1)\<rparr>)"
    using assms by (simp add: step_keeps)
  have 1: "\<exists>st'. step s_idx w_idx tag st = Inr st'
            \<and> ents st' = ents st \<and> start st' = start st \<and> startCat st' = startCat st"
    by (simp add: k)
  have 2: "get_entities [[tag]] = Inr []"
    by (simp add: get_entities_def scan_sentence_def init_state_def k)
  have 3: "get_entities [[''B-'' @ Y, tag]] = Inr [(0, 0, 1, Some Y)]" if "CHR ''-'' \<notin> set Y"
  proof -
    have "str_split CHR ''-'' (''B-'' @ Y) = [''B'', Y]"
      using that by (simp add: str_split_no_sep)
    then have "\<And>s w st. start st = None \<Longrightarrow>
        step s w (''B-'' @ Y) st = Inr (st\<lparr>cat := Some Y, start := Some w, startCat := Some Y\<rparr>)"
      by (simp add: step_def Let_def)
    then show ?thesis
      by (simp add: get_entities_def scan_sentence_def init_state_def k)
  qed
  show ?thesis using 1 2 3 by blast
qed

theorem inside_marker_keeps_state_witness:
  "length (str_split CHR ''-'' ''I-ORG'') = 2 \<and> str_split CHR ''-'' ''I-ORG'' ! 0 = ''I''
   \<and> step 0 1 ''I-ORG'' \<lparr>ents = [], start = Some 0, startCat = Some ''PER'', cat = Some ''PER''\<rparr>
       = Inr \<lparr>ents = [], start = Some 0, startCat = Some ''PER'', cat = Some ''ORG''\<rparr>
   \<and> get_entities [[''I-ORG'']] = Inr []
   \<and> CHR ''-'' \<notin> set ''PER''
   \<and> get_entities [[''B-PER'', ''I-ORG'']] = Inr [(0, 0, 1, Some ''PER'')]"
proof -
  have a: "length (str_split CHR ''-'' ''I-ORG'') = 2" by simp
  have b: "str_split CHR ''-'' ''I-ORG'' ! 0 = ''I''" by simp
  have c: "step 0 1 ''I-ORG'' \<lparr>ents = [], start = Some 0, startCat = Some ''PER'', cat = Some ''PER''\<rparr>
       = Inr \<lparr>ents = [], start = Some 0, startCat = Some ''PER'', cat = Some ''ORG''\<rparr>"
    by (simp add: step_def)
  show ?thesis
    using a b c inside_marker_keeps_state [OF a b, of 0 1 _ "''PER''"] by simp
qed

text \<open>
  Claim C3, as amended. A tag that does not start with \<open>B-\<close> or \<open>I-\<close> and whose split at
  \<open>-\<close> has not exactly two pieces, or has the first piece \<open>O\<close>, raises nothing and can
  be replaced by \<open>O\<close> without changing the result of the extraction. A tag with
  exactly two pieces whose first piece is none of \<open>B\<close>, \<open>I\<close> and \<open>O\<close> raises nothing
  either, but is treated like an \<open>I\<close> tag: the step leaves \<open>ents\<close>, \<open>start\<close> and
  \<open>startCat\<close> as they are.
\<close>

theorem malformed_tag_like_O:
  "(take 2 tag \<noteq> ''B-'' \<and> take 2 tag \<noteq> ''I-''
      \<and> (length (str_split CHR ''-'' tag) \<noteq> 2 \<or> str_split CHR ''-'' tag ! 0 = ''O'')
    \<longrightarrow> (\<exists>es. get_entities (pre @ (xs @ tag # ys) # post) = Inr es
            \<and> get_entities (pre @ (xs @ ''O'' # ys) # post) = Inr es))
   \<and> (length (str_split CHR ''-'' tag) = 2
      \<and> str_split CHR ''-'' tag ! 0 \<notin> {''B'', ''I'', ''O''}
    \<longrightarrow> (\<exists>st'. step s_idx w_idx tag st = Inr st'
            \<and> ents st' = ents st \<and> start st' = start st \<and> startCat st' = startCat st))"
proof (intro conjI impI)
  assume "take 2 tag \<noteq> ''B-'' \<and> take 2 tag \<noteq> ''I-''
      \<and> (length (str_split CHR ''-'' tag) \<noteq> 2 \<or> str_split CHR ''-'' tag ! 0 = ''O'')"
  then have "get_entities (pre @ (xs @ tag # ys) # post)
           = get_entities (pre @ (xs @ ''O'' # ys) # post)"
    by (intro get_entities_like_O) simp
  then show "\<exists>es. get_entities (pre @ (xs @ tag # ys) # post) = Inr es
            \<and> get_entities (pre @ (xs @ ''O'' # ys) # post) = Inr es"
    using get_entities_total [of "pre @ (xs @ tag # ys) # post"] by auto
next
  assume "length (str_split CHR ''-'' tag) = 2
      \<and> str_split CHR ''-'' tag ! 0 \<notin> {''B'', ''I'', ''O''}"
  then show "\<exists>st'. step s_idx w_idx tag st = Inr st'
            \<and> ents st' = ents st \<and> start st' = start st \<and> startCat st' = startCat st"
    by (simp add: step_keeps)
qed

theorem malformed_tag_like_O_witness:
  "take 2 ''X'' \<noteq> ''B-'' \<and> take 2 ''X'' \<noteq> ''I-''
   \<and> length (str_split CHR ''-'' ''X'') \<noteq> 2
   \<and> get_entities ([[''O'']] @ ([''B-PER''] @ ''X'' # [''I-PER'']) # [[''B-ORG'']])
       = Inr [(1, 0, 0, Some ''PER''), (2, 0, 0, Some ''ORG'')]
   \<and> get_entities ([[''O'']] @ ([''B-PER''] @ ''O'' # [''I-PER'']) # [[''B-ORG'']])
       = Inr [(1, 0, 0, Some ''PER''), (2, 0, 0, Some ''ORG'')]
   \<and> length (str_split CHR ''-'' ''Q-Z'') = 2
   \<and> str_split CHR ''-'' ''Q-Z'' ! 0 \<notin> {''B'', ''I'', ''O''}
   \<and> step 0 1 ''Q-Z'' \<lparr>ents = [], start = Some 0, startCat = Some ''PER'', cat = Some ''PER''\<rparr>
       = Inr \<lparr>ents = [], start = Some 0, startCat = Some ''PER'', cat = Some ''Z''\<rparr>"
proof -
  have a: "get_entities ([[''O'']] @ ([''B-PER''] @ ''O'' # [''I-PER'']) # [[''B-ORG'']])
       = Inr [(1, 0, 0, Some ''PER''), (2, 0, 0, Some ''ORG'')]"
    by code_simp
  have b: "step 0 1 ''Q-Z'' \<lparr>ents = [], start = Some 0, startCat = Some ''PER'', cat = Some ''PER''\<rparr>
       = Inr \<lparr>ents = [], start = Some 0, startCat = Some ''PER'', cat = Some ''Z''\<rparr>"
    by (simp add: step_def)
  show ?thesis
    using a b
      malformed_tag_like_O [of "''X''" "[[''O'']]" "[''B-PER'']" "[''I-PER'']" "[[''B-ORG'']]"]
      malformed_tag_like_O [of "''Q-Z''"]
    by simp
qed

text \<open>
  The tag \<open>Q-Z\<close> does not close the open entity as \<open>O\<close> does, and the tag \<open>B-\<close>, with
  an empty category, opens an entity.
\<close>

theorem malformed_tag_counterexample:
  "get_entities [[''B-PER'', ''Q-Z'', ''O'']] = Inr [(0, 0, 1, Some ''PER'')]
   \<and> get_entities [[''B-PER'', ''O'', ''O'']] = Inr [(0, 0, 0, Some ''PER'')]
   \<and> get_entities [[''O'', ''B-'', ''O'']] = Inr [(0, 1, 1, Some '''')]
   \<and> get_entities [[''O'', ''O'', ''O'']] = Inr []"
proof -
  have a: "get_entities [[''B-PER'', ''Q-Z'', ''O'']] = Inr [(0, 0, 1, Some ''PER'')]"
    by code_simp
  have b: "get_entities [[''B-PER'', ''O'', ''O'']] = Inr [(0, 0, 0, Some ''PER'')]"
    by code_simp
  have c: "get_entities [[''O'', ''B-'', ''O'']] = Inr [(0, 1, 1, Some '''')]"
    by code_simp
  have d: "get_entities [[''O'', ''O'', ''O'']] = Inr []"
    by code_simp
  show ?thesis using a b c d by simp
qed

text \<open>
  Claim C4. The tag \<open>B-geo-loc\<close> of the notebook's own tag vocabulary splits into three
  pieces and is therefore read as \<open>O\<close>: it opens no entity, while it still closes the
  one that is open. A dataset whose only entities have such a category scores \<open>0\<close>
  against itself.
\<close>

theorem hyphenated_category_dropped:
  "str_split CHR ''-'' ''B-geo-loc'' = [''B'', ''geo'', ''loc'']
   \<and> get_entities [[''B-geo-loc'', ''I-geo-loc'']] = Inr []
   \<and> get_entities [[''B-person'', ''B-geo-loc'']] = Inr [(0, 0, 0, Some ''person'')]
   \<and> calculateF1 [[''B-geo-loc'', ''I-geo-loc'']] [[''B-geo-loc'', ''I-geo-loc'']] = Inr (0, 0, 0)
   \<and> get_entities [[''B-person'', ''I-person'']] = Inr [(0, 0, 1, Some ''person'')]"
proof -
  have a: "str_split CHR ''-'' ''B-geo-loc'' = [''B'', ''geo'', ''loc'']" by simp
  have b: "get_entities [[''B-geo-loc'', ''I-geo-loc'']] = Inr []" by code_simp
  have c: "get_entities [[''B-person'', ''B-geo-loc'']] = Inr [(0, 0, 0, Some ''person'')]"
    by code_simp
  have d: "calculateF1 [[''B-geo-loc'', ''I-geo-loc'']] [[''B-geo-loc'', ''I-geo-loc'']] = Inr (0, 0, 0)"
    by code_simp
  have e: "get_entities [[''B-person'', ''I-person'']] = Inr [(0, 0, 1, Some ''person'')]"
    by code_simp
  show ?thesis using a b c d e by simp
qed

end
